theory Spec2Isabelle
  imports Complex_Main
begin

section \<open>The host document\<close>

text \<open>
  The class \<open>Collapsible\<close> of \<open>src/dist/collapsible.js\<close> works on DOM elements of the
  host document. An element is a reference; everything the class reads from or writes
  to an element is a component of the page state, indexed by that reference, so that
  two names for one element share its class list. The components are
  \<^item> \<open>classList p e\<close>, the class list of \<open>e\<close>;
  \<^item> \<open>document_querySelector p s\<close>, the answer of \<open>document.querySelector(s)\<close>;
  \<^item> \<open>listItems p e\<close>, the answer of \<open>e.querySelectorAll('li')\<close>, in document order;
  \<^item> \<open>menuOf p e\<close> and \<open>dropdownOf p e\<close>, the answers of
    \<open>e.querySelector('.collapsible-menu')\<close> and \<open>e.querySelector('.collapsible-dropdown')\<close>
    (\<open>None\<close> is \<open>null\<close>);
  \<^item> \<open>boundingWidth p e\<close>, the width of \<open>e.getBoundingClientRect()\<close>;
  \<^item> \<open>offsetWidth p\<close>, which is \<open>document.body.offsetWidth\<close>;
  \<^item> \<open>parentElement p e\<close>;
  \<^item> the click listeners and the resize sensors registered so far;
  \<^item> \<open>nextRef p\<close>, the reference the next created element receives.

  JavaScript numbers are modelled as \<open>real\<close>: the widths of bounding boxes are
  fractional pixels. Rounding of doubles, \<open>NaN\<close> arguments and infinities are outside
  the model; the one \<open>NaN\<close> the code can produce by itself (adding an array slot that
  does not exist) is written out in \<open>getAmountOfItemsToCollapse\<close>.
\<close>

type_synonym ref = nat

datatype error = Error string | TypeError

text \<open>The instance fields assigned by the constructor (lines 9 to 12).\<close>

record collapsible =
  container :: ref
  threshold :: real
  items :: "ref list"
  itemsDimensions :: "real list"

text \<open>
  Callbacks handed to the host: the bound method \<open>this.collapse.bind(this)\<close> (line 145)
  and the click handler of the toggle button (lines 120 to 123), which closes over the
  dropdown element.
\<close>

datatype callback = Collapse collapsible | ToggleOpen ref

record page =
  classList :: "ref \<Rightarrow> string list"
  document_querySelector :: "string \<Rightarrow> ref option"
  listItems :: "ref \<Rightarrow> ref list"
  menuOf :: "ref \<Rightarrow> ref option"
  dropdownOf :: "ref \<Rightarrow> ref option"
  boundingWidth :: "ref \<Rightarrow> real"
  offsetWidth :: real
  parentElement :: "ref \<Rightarrow> ref option"
  listeners :: "(ref \<times> callback) list"
  sensors :: "(ref option \<times> callback) list"
  nextRef :: ref

subsection \<open>Class lists\<close>

text \<open>
  \<open>DOMTokenList\<close>: \<open>add\<close> appends a token that is absent, \<open>remove\<close> deletes it,
  \<open>toggle\<close> does the one or the other.
\<close>

definition token_add :: "string \<Rightarrow> string list \<Rightarrow> string list" where
  "token_add t ts = (if t \<in> set ts then ts else ts @ [t])"

definition token_remove :: "string \<Rightarrow> string list \<Rightarrow> string list" where
  "token_remove t ts = filter (\<lambda>u. u \<noteq> t) ts"

definition classList_add :: "ref \<Rightarrow> string \<Rightarrow> page \<Rightarrow> page" where
  "classList_add e t p = p\<lparr>classList := (classList p)(e := token_add t (classList p e))\<rparr>"

definition classList_remove :: "ref \<Rightarrow> string \<Rightarrow> page \<Rightarrow> page" where
  "classList_remove e t p = p\<lparr>classList := (classList p)(e := token_remove t (classList p e))\<rparr>"


text \<open>An element is visible when it does not carry the class \<open>hide\<close>.\<close>

definition visible :: "page \<Rightarrow> ref \<Rightarrow> bool" where
  "visible p e \<longleftrightarrow> ''hide'' \<notin> set (classList p e)"

section \<open>Construction\<close>

text \<open>
  \<open>queryContainer\<close> (lines 23 to 31): \<open>document.querySelector\<close> answers \<open>null\<close> when
  no element matches, and the method throws an \<open>Error\<close> with the message below.
\<close>

definition queryContainer :: "page \<Rightarrow> string \<Rightarrow> error + ref" where
  "queryContainer p selector =
     (case document_querySelector p selector of
        None \<Rightarrow> Inl (Error (''Collapsible: No element find using '' @ [CHR 0x22] @ selector
                              @ [CHR 0x22] @ '' selector''))
      | Some c \<Rightarrow> Inr c)"

text \<open>\<open>getItemsDimensions\<close> (lines 38 to 48): one measured width per item, in order.\<close>

definition getItemsDimensions :: "page \<Rightarrow> ref list \<Rightarrow> real list" where
  "getItemsDimensions p its = map (\<lambda>item. boundingWidth p item) its"

text \<open>
  The constructor (lines 8 to 13). The lookup of the container is its first statement,
  so an exception there leaves no instance behind.
\<close>

definition new_Collapsible :: "page \<Rightarrow> string \<Rightarrow> real \<Rightarrow> error + collapsible" where
  "new_Collapsible p selector thr =
     (case queryContainer p selector of
        Inl e \<Rightarrow> Inl e
      | Inr c \<Rightarrow>
          (let its = listItems p c
           in Inr \<lparr>container = c, threshold = thr, items = its,
                   itemsDimensions = getItemsDimensions p its\<rparr>))"

section \<open>The amount of items to collapse\<close>

text \<open>
  \<open>getAmountOfItemsToCollapse\<close> (lines 57 to 72). The loop runs over the indices of
  \<open>this.items\<close> and reads \<open>this.itemsDimensions[i]\<close>. A slot beyond the end of the
  array reads as \<open>undefined\<close>, the sum becomes \<open>NaN\<close> (here \<open>None\<close>) and stays so, and
  every comparison with \<open>NaN\<close> is false, so that the loop no longer breaks.
\<close>

record renderable =
  amount :: nat
  width :: "real option"

function scan :: "collapsible \<Rightarrow> real \<Rightarrow> nat \<Rightarrow> renderable \<Rightarrow> renderable" where
  "scan c pageWidth i r =
     (if i < length (items c) then
        (let itemWidth = (if i < length (itemsDimensions c)
                          then Some (itemsDimensions c ! i) else None);
             w = (case (width r, itemWidth) of
                    (Some a, Some b) \<Rightarrow> Some (a + b)
                  | _ \<Rightarrow> None);
             r1 = r\<lparr>width := w\<rparr>
         in if (case w of Some s \<Rightarrow> pageWidth - s < threshold c | None \<Rightarrow> False)
            then r1
            else scan c pageWidth (Suc i) (r1\<lparr>amount := amount r1 + 1\<rparr>))
      else r)"
  by pat_completeness auto
termination
  by (relation "measure (\<lambda>(c, pageWidth, i, r). length (items c) - i)") auto

definition getAmountOfItemsToCollapse :: "collapsible \<Rightarrow> page \<Rightarrow> int" where
  "getAmountOfItemsToCollapse c p =
     (let r = scan c (offsetWidth p) 0 \<lparr>amount = 0, width = Some 0\<rparr>
      in int (length (items c)) - int (amount r))"

section \<open>Collapsing\<close>

text \<open>Reading a list at a JavaScript index: \<open>undefined\<close> (here \<open>None\<close>) out of range.\<close>

definition nth_or_undefined :: "'a list \<Rightarrow> int \<Rightarrow> 'a option" where
  "nth_or_undefined xs k = (if 0 \<le> k \<and> k < int (length xs) then Some (xs ! nat k) else None)"

text \<open>
  The \<open>forEach\<close> of lines 87 to 91: every item loses \<open>hide\<close>, the clone at the same
  index gains it. Where the dropdown has no element at that index, \<open>clone\<close> is
  \<open>undefined\<close> and \<open>clone.classList\<close> throws a \<open>TypeError\<close>.
\<close>

fun clearState :: "ref list \<Rightarrow> ref list \<Rightarrow> nat \<Rightarrow> page \<Rightarrow> error + page" where
  "clearState [] dropdownItems index p = Inr p"
| "clearState (item # rest) dropdownItems index p =
     (case nth_or_undefined dropdownItems (int index) of
        None \<Rightarrow> Inl TypeError
      | Some clone \<Rightarrow>
          clearState rest dropdownItems (Suc index)
            (classList_add clone ''hide'' (classList_remove item ''hide'' p)))"

text \<open>
  The loop of lines 93 to 99. The index counts back from the end of the dropdown's
  list; the same index reads \<open>this.items\<close>.
\<close>

function hideTrailing :: "ref list \<Rightarrow> ref list \<Rightarrow> int \<Rightarrow> nat \<Rightarrow> page \<Rightarrow> error + page" where
  "hideTrailing its dropdownItems amountOfItemsToCollapse i p =
     (if int i < amountOfItemsToCollapse then
        (let index = int (length dropdownItems) - int i - 1
         in case nth_or_undefined its index of
              None \<Rightarrow> Inl TypeError
            | Some item \<Rightarrow>
                (case nth_or_undefined dropdownItems index of
                   None \<Rightarrow> Inl TypeError
                 | Some clone \<Rightarrow>
                     hideTrailing its dropdownItems amountOfItemsToCollapse (Suc i)
                       (classList_remove clone ''hide'' (classList_add item ''hide'' p))))
      else Inr p)"
  by pat_completeness auto
termination
  by (relation "measure (\<lambda>(its, dropdownItems, a, i, p). nat (a - int i))") auto

text \<open>
  \<open>collapse\<close> (lines 74 to 100). A \<open>null\<close> menu or dropdown makes the next
  property access throw before anything is changed.
\<close>

definition collapse :: "collapsible \<Rightarrow> page \<Rightarrow> error + page" where
  "collapse c p =
     (case menuOf p (container c) of
        None \<Rightarrow> Inl TypeError
      | Some menu \<Rightarrow>
          (case dropdownOf p menu of
             None \<Rightarrow> Inl TypeError
           | Some dropdown \<Rightarrow>
               (let dropdownItems = listItems p dropdown;
                    amountOfItemsToCollapse = getAmountOfItemsToCollapse c p;
                    p1 = classList_remove menu ''hide'' p;
                    p2 = (if amountOfItemsToCollapse = 0
                          then classList_add menu ''hide'' p1 else p1)
                in case clearState (items c) dropdownItems 0 p2 of
                     Inl e \<Rightarrow> Inl e
                   | Inr p3 \<Rightarrow>
                       hideTrailing (items c) dropdownItems amountOfItemsToCollapse 0 p3)))"

section \<open>Injecting the menu\<close>

text \<open>
  \<open>inject\<close> (lines 108 to 135) creates five elements and one deep clone per item.
  A deep clone of an item copies the item and everything below it, so it holds one
  copy of every \<open>li\<close> below the item; \<open>cloneNodes\<close> allots to each item the reference
  of its clone and the references of those inner copies.
\<close>

fun cloneNodes :: "page \<Rightarrow> ref list \<Rightarrow> ref \<Rightarrow> (ref \<times> ref list) list" where
  "cloneNodes p [] n = []"
| "cloneNodes p (item # rest) n =
     (let k = length (listItems p item)
      in (n, [Suc n ..< Suc n + k]) # cloneNodes p rest (Suc n + k))"

text \<open>
  The class lists of the copies: the clone of an item has the item's classes and
  \<open>hide\<close> (line 127), an inner copy has the classes of its original.
\<close>

fun copyClasses ::
  "page \<Rightarrow> ref list \<Rightarrow> (ref \<times> ref list) list \<Rightarrow> (ref \<Rightarrow> string list) \<Rightarrow> ref \<Rightarrow> string list"
where
  "copyClasses p (item # rest) ((clone, inner) # others) cl =
     copyClasses p rest others
       (fold (\<lambda>(orig, copy) f. f(copy := classList p orig)) (zip (listItems p item) inner)
          (cl(clone := token_add ''hide'' (classList p item))))"
| "copyClasses p its cloned cl = cl"

text \<open>
  The menu is appended as the last child of the container, so that it is the last
  element of the container in document order: an element of class
  \<open>collapsible-menu\<close> that the container held before stays the first match. The
  dropdown is the first child of the menu. The list items below the dropdown are the
  clones with their inner copies, in the order of the items. Of the tree, the page
  records the answers the class asks for later: those of the container, the menu and
  the dropdown.
\<close>

definition inject :: "collapsible \<Rightarrow> page \<Rightarrow> page" where
  "inject c p =
     (let menu = nextRef p;
          dropdownList = nextRef p + 1;
          icon = nextRef p + 2;
          dropdown = nextRef p + 3;
          button = nextRef p + 4;
          cloned = cloneNodes p (items c) (nextRef p + 5);
          lis = concat (map (\<lambda>(clone, inner). clone # inner) cloned);
          created = (classList p)
            (menu := [''collapsible-menu''],
             dropdownList := [''dropdown-menu'', ''collapsible-dropdown-list''],
             icon := [''fas'', ''fa-bars''],
             dropdown := [''dropdown'', ''collapsible-dropdown''],
             button := [''btn'', ''dropdown-toggle'', ''collapsible-toggle''])
      in p\<lparr>classList := copyClasses p (items c) cloned created,
            listItems := (listItems p)
              (dropdown := lis, menu := lis,
               container c := listItems p (container c) @ menu # lis),
            menuOf := (menuOf p)
              (container c := (case menuOf p (container c) of
                                 None \<Rightarrow> Some menu | Some m \<Rightarrow> Some m)),
            dropdownOf := (dropdownOf p)(menu := Some dropdown),
            listeners := listeners p @ [(button, ToggleOpen dropdown)],
            nextRef := nextRef p + 5 + length lis\<rparr>)"

section \<open>Rendering and the resize sensor\<close>






section \<open>Notions of the specification\<close>

text \<open>
  The specification speaks of the space that is available once an item is included:
  the page width minus the running sum of the widths up to and including that item.
  The items that fit are counted from the first item on, up to (and without) the first
  item that leaves less than the threshold.
\<close>

definition available :: "real \<Rightarrow> real list \<Rightarrow> nat \<Rightarrow> real" where
  "available pageWidth ws j = pageWidth - sum_list (take (Suc j) ws)"

definition fitting :: "real \<Rightarrow> real \<Rightarrow> real list \<Rightarrow> nat" where
  "fitting pageWidth thr ws =
     length (takeWhile (\<lambda>j. \<not> available pageWidth ws j < thr) [0..<length ws])"

text \<open>
  The menu and the list of clones that \<open>collapse\<close> finds (lines 75 to 77), when it finds
  them.
\<close>

definition dropdownItemsOf :: "collapsible \<Rightarrow> page \<Rightarrow> (ref \<times> ref list) option" where
  "dropdownItemsOf c p =
     (case menuOf p (container c) of
        None \<Rightarrow> None
      | Some menu \<Rightarrow>
          (case dropdownOf p menu of
             None \<Rightarrow> None
           | Some dropdown \<Rightarrow> Some (menu, listItems p dropdown)))"

text \<open>
  The state after an injection: the menu is found, the dropdown holds one clone per
  item, and the menu, the items and the clones are different elements.
\<close>

definition injected :: "collapsible \<Rightarrow> page \<Rightarrow> ref \<Rightarrow> ref list \<Rightarrow> bool" where
  "injected c p menu clones \<longleftrightarrow>
     dropdownItemsOf c p = Some (menu, clones) \<and>
     length clones = length (items c) \<and>
     distinct (menu # items c @ clones)"

section \<open>Auxiliary notions\<close>

text \<open>The new running sum and the test of line 67, as the loop computes them.\<close>

definition next_width :: "collapsible \<Rightarrow> nat \<Rightarrow> renderable \<Rightarrow> real option" where
  "next_width c i r =
     (case (width r, if i < length (itemsDimensions c)
                     then Some (itemsDimensions c ! i) else None) of
        (Some a, Some b) \<Rightarrow> Some (a + b)
      | _ \<Rightarrow> None)"

definition breaks :: "collapsible \<Rightarrow> real \<Rightarrow> real option \<Rightarrow> bool" where
  "breaks c pw w = (case w of Some s \<Rightarrow> pw - s < threshold c | None \<Rightarrow> False)"

text \<open>Two pages that differ in class lists only.\<close>

definition same_structure :: "page \<Rightarrow> page \<Rightarrow> bool" where
  "same_structure p q \<longleftrightarrow> q = p\<lparr>classList := classList q\<rparr>"

text \<open>The class list of the menu after lines 80 to 84.\<close>

definition menu_classes :: "int \<Rightarrow> string list \<Rightarrow> string list" where
  "menu_classes a ts =
     (if a = 0 then token_add ''hide'' (token_remove ''hide'' ts) else token_remove ''hide'' ts)"

section \<open>A navigation bar with five items\<close>

text \<open>
  A page for the concrete scenarios: element 0 holds the list 1, whose items are the
  elements 2 to 6, each 100 wide; the body is 350 wide; 7 is the next free reference.
\<close>

definition nav :: page where
  "nav = \<lparr>classList = (\<lambda>e. []),
          document_querySelector = (\<lambda>s. if s = ''#nav'' then Some 1 else None),
          listItems = (\<lambda>e. if e = 1 then [2, 3, 4, 5, 6] else []),
          menuOf = (\<lambda>e. None),
          dropdownOf = (\<lambda>e. None),
          boundingWidth = (\<lambda>e. 100),
          offsetWidth = 350,
          parentElement = (\<lambda>e. if e = 0 then None else if e = 1 then Some 0 else Some 1),
          listeners = [],
          sensors = [],
          nextRef = 7\<rparr>"

definition bar :: collapsible where
  "bar = \<lparr>container = 1, threshold = 50, items = [2, 3, 4, 5, 6],
          itemsDimensions = [100, 100, 100, 100, 100]\<rparr>"


section \<open>The scan\<close>

lemma scan_done: "\<not> i < length (items c) \<Longrightarrow> scan c pw i r = r"
  by (subst scan.simps) simp

lemma scan_break:
  "i < length (items c) \<Longrightarrow> breaks c pw (next_width c i r) \<Longrightarrow>
   scan c pw i r = r\<lparr>width := next_width c i r\<rparr>"
  by (subst scan.simps) (simp add: Let_def next_width_def breaks_def)

lemma scan_continue:
  "i < length (items c) \<Longrightarrow> \<not> breaks c pw (next_width c i r) \<Longrightarrow>
   scan c pw i r = scan c pw (Suc i) (r\<lparr>width := next_width c i r, amount := amount r + 1\<rparr>)"
  by (subst scan.simps) (simp add: Let_def next_width_def breaks_def)

declare scan.simps [simp del]

lemma scan_amount_le:
  "amount (scan c pw i r) \<le> amount r + (length (items c) - i)"
proof (induction "length (items c) - i" arbitrary: i r)
  case 0
  then show ?case by (simp add: scan_done)
next
  case (Suc k)
  then have lt: "i < length (items c)" by simp
  show ?case
  proof (cases "breaks c pw (next_width c i r)")
    case True
    then show ?thesis using lt by (simp add: scan_break)
  next
    case False
    have "k = length (items c) - Suc i" using Suc.hyps(2) by simp
    let ?r = "r\<lparr>width := next_width c i r, amount := amount r + 1\<rparr>"
    have "amount (scan c pw (Suc i) ?r) \<le> amount ?r + (length (items c) - Suc i)"
      using \<open>k = length (items c) - Suc i\<close> by (rule Suc.hyps(1))
    then show ?thesis using lt False by (simp add: scan_continue)
  qed
qed

lemma next_width_aligned:
  assumes "i < length (itemsDimensions c)"
    and "width r = Some (sum_list (take i (itemsDimensions c)))"
  shows "next_width c i r = Some (sum_list (take (Suc i) (itemsDimensions c)))"
  using assms by (simp add: next_width_def take_Suc_conv_app_nth)

lemma scan_aligned:
  assumes "length (itemsDimensions c) = length (items c)"
    and "width r = Some (sum_list (take i (itemsDimensions c)))"
  shows "amount (scan c pw i r) = amount r +
      length (takeWhile (\<lambda>j. \<not> available pw (itemsDimensions c) j < threshold c)
                [i..<length (items c)])"
  using assms(2)
proof (induction "length (items c) - i" arbitrary: i r)
  case 0
  then show ?case by (simp add: scan_done)
next
  case (Suc k)
  then have lt: "i < length (items c)" by simp
  then have upt: "[i..<length (items c)] = i # [Suc i..<length (items c)]"
    by (simp add: upt_conv_Cons)
  have nw: "next_width c i r = Some (sum_list (take (Suc i) (itemsDimensions c)))"
    using lt assms(1) Suc.prems by (simp add: next_width_aligned)
  show ?case
  proof (cases "breaks c pw (next_width c i r)")
    case True
    then have "available pw (itemsDimensions c) i < threshold c"
      by (simp add: nw breaks_def available_def)
    then show ?thesis using lt True by (simp add: scan_break upt)
  next
    case False
    then have fits: "\<not> available pw (itemsDimensions c) i < threshold c"
      by (simp add: nw breaks_def available_def)
    let ?r = "r\<lparr>width := next_width c i r, amount := amount r + 1\<rparr>"
    have k: "k = length (items c) - Suc i" using Suc.hyps(2) by simp
    have w: "width ?r = Some (sum_list (take (Suc i) (itemsDimensions c)))"
      by (simp add: nw)
    have "amount (scan c pw (Suc i) ?r) = amount ?r +
      length (takeWhile (\<lambda>j. \<not> available pw (itemsDimensions c) j < threshold c)
                [Suc i..<length (items c)])"
      by (rule Suc.hyps(1) [OF k w])
    then show ?thesis using lt False fits by (simp add: scan_continue upt)
  qed
qed

section \<open>The two loops of collapse\<close>

declare hideTrailing.simps [simp del]

lemma hide_token_add [simp]: "t \<in> set (token_add t ts)"
  by (simp add: token_add_def)

lemma hide_token_remove [simp]: "t \<notin> set (token_remove t ts)"
  by (simp add: token_remove_def)

lemma classList_classList_add [simp]:
  "classList (classList_add e t p) = (classList p)(e := token_add t (classList p e))"
  by (simp add: classList_add_def)

lemma classList_classList_remove [simp]:
  "classList (classList_remove e t p) = (classList p)(e := token_remove t (classList p e))"
  by (simp add: classList_remove_def)

lemma same_structure_refl [simp]: "same_structure p p"
  by (simp add: same_structure_def)

lemma same_structure_trans: "same_structure p q \<Longrightarrow> same_structure q r \<Longrightarrow> same_structure p r"
  unfolding same_structure_def
  by (metis page.update_convs(1) page.surjective)

lemma same_structure_add [simp]: "same_structure p (classList_add e t p)"
  by (simp add: same_structure_def classList_add_def)

lemma same_structure_remove [simp]: "same_structure p (classList_remove e t p)"
  by (simp add: same_structure_def classList_remove_def)

lemma nth_or_undefined_nat [simp]:
  "nth_or_undefined xs (int k) = (if k < length xs then Some (xs ! k) else None)"
  by (simp add: nth_or_undefined_def)

lemma clearState_ok:
  assumes "k + length its \<le> length dd" "distinct its" "distinct dd" "set its \<inter> set dd = {}"
  shows "\<exists>q. clearState its dd k p = Inr q \<and> same_structure p q \<and>
      (\<forall>e. e \<notin> set its \<longrightarrow> e \<notin> set (drop k dd) \<longrightarrow> classList q e = classList p e) \<and>
      (\<forall>j<length its. visible q (its ! j) \<and> \<not> visible q (dd ! (k + j)))"
  using assms
proof (induction its arbitrary: k p)
  case Nil
  then show ?case by simp
next
  case (Cons item rest)
  let ?clone = "dd ! k"
  let ?p1 = "classList_add ?clone ''hide'' (classList_remove item ''hide'' p)"
  have k: "k < length dd" using Cons.prems(1) by simp
  have "Suc k + length rest \<le> length dd" "distinct rest" "set rest \<inter> set dd = {}"
    using Cons.prems by auto
  from Cons.IH [OF this(1) this(2) Cons.prems(3) this(3), of ?p1]
  obtain q where q: "clearState rest dd (Suc k) ?p1 = Inr q" "same_structure ?p1 q"
    and frame: "\<And>e. e \<notin> set rest \<Longrightarrow> e \<notin> set (drop (Suc k) dd) \<Longrightarrow> classList q e = classList ?p1 e"
    and vis: "\<And>j. j < length rest \<Longrightarrow> visible q (rest ! j) \<and> \<not> visible q (dd ! (Suc k + j))"
    by blast
  have run: "clearState (item # rest) dd k p = Inr q"
    using k q(1) by simp
  have str: "same_structure p q"
    by (rule same_structure_trans [OF _ q(2)])
       (rule same_structure_trans [OF same_structure_remove same_structure_add])
  have item_dd: "item \<notin> set dd" "item \<notin> set rest" using Cons.prems by auto
  have clone_in: "?clone \<in> set dd" using k by simp
  have clone_later: "?clone \<notin> set (drop (Suc k) dd)"
    using Cons.prems(3) k
    by (metis Cons_nth_drop_Suc distinct.simps(2) distinct_drop)
  have clone_rest: "?clone \<notin> set rest" using Cons.prems(4) clone_in by auto
  have item_clone: "item \<noteq> ?clone" using item_dd(1) clone_in by auto
  have q_item: "classList q item = token_remove ''hide'' (classList p item)"
    using frame [of item] item_dd item_clone by (auto dest: in_set_dropD)
  have q_clone: "classList q ?clone = token_add ''hide'' (classList p ?clone)"
    using frame [OF clone_rest clone_later] item_clone by simp
  have fr: "\<forall>e. e \<notin> set (item # rest) \<longrightarrow> e \<notin> set (drop k dd) \<longrightarrow> classList q e = classList p e"
  proof (intro allI impI)
    fix e assume e: "e \<notin> set (item # rest)" "e \<notin> set (drop k dd)"
    have "drop k dd = ?clone # drop (Suc k) dd" using k by (simp add: Cons_nth_drop_Suc)
    with e(2) have "e \<noteq> ?clone" "e \<notin> set (drop (Suc k) dd)" by auto
    with frame [of e] e(1) show "classList q e = classList p e" by simp
  qed
  have vs: "\<forall>j<length (item # rest). visible q ((item # rest) ! j) \<and> \<not> visible q (dd ! (k + j))"
  proof (intro allI impI)
    fix j assume j: "j < length (item # rest)"
    show "visible q ((item # rest) ! j) \<and> \<not> visible q (dd ! (k + j))"
    proof (cases j)
      case 0
      then show ?thesis by (simp add: visible_def q_item q_clone)
    next
      case (Suc j')
      then show ?thesis using vis [of j'] j by simp
    qed
  qed
  show ?case using run str fr vs by blast
qed

lemma hideTrailing_done: "\<not> int i < a \<Longrightarrow> hideTrailing its dd a i p = Inr p"
  by (subst hideTrailing.simps) simp

lemma hideTrailing_step:
  assumes "int i < a" "i < length dd" "length dd - Suc i < length its"
  shows "hideTrailing its dd a i p =
     hideTrailing its dd a (Suc i)
       (classList_remove (dd ! (length dd - Suc i)) ''hide''
          (classList_add (its ! (length dd - Suc i)) ''hide'' p))"
proof -
  have idx: "int (length dd) - int i - 1 = int (length dd - Suc i)"
    using assms(2) by simp
  have lt: "length dd - Suc i < length dd" using assms(2) by simp
  show ?thesis
    using assms(1,3) lt
    by (subst hideTrailing.simps) (simp only: idx Let_def nth_or_undefined_nat if_True option.case)
qed

lemma hideTrailing_ok:
  assumes len: "length its = length dd" and b: "b \<le> length dd"
    and dist: "distinct its" "distinct dd" "set its \<inter> set dd = {}"
    and i: "i \<le> b"
  shows "\<exists>q. hideTrailing its dd (int b) i p = Inr q \<and> same_structure p q \<and>
      (\<forall>e. (\<forall>m. length dd - b \<le> m \<and> m < length dd - i \<longrightarrow> e \<noteq> its ! m \<and> e \<noteq> dd ! m)
           \<longrightarrow> classList q e = classList p e) \<and>
      (\<forall>m. length dd - b \<le> m \<and> m < length dd - i \<longrightarrow>
           \<not> visible q (its ! m) \<and> visible q (dd ! m))"
  using i
proof (induction "b - i" arbitrary: i p)
  case 0
  then have "i = b" by simp
  then show ?case by (auto simp: hideTrailing_done)
next
  case (Suc k)
  let ?n = "length dd"
  let ?m0 = "?n - Suc i"
  let ?item = "its ! ?m0"
  let ?clone = "dd ! ?m0"
  let ?p1 = "classList_remove ?clone ''hide'' (classList_add ?item ''hide'' p)"
  have ib: "i < b" using Suc.hyps(2) by simp
  then have il: "i < ?n" using b by simp
  then have m0: "?m0 < ?n" by simp
  have "k = b - Suc i" "Suc i \<le> b" using Suc.hyps(2) by simp_all
  from Suc.hyps(1) [OF this, of ?p1]
  obtain q where q: "hideTrailing its dd (int b) (Suc i) ?p1 = Inr q" "same_structure ?p1 q"
    and frame: "\<And>e. (\<forall>m. ?n - b \<le> m \<and> m < ?n - Suc i \<longrightarrow> e \<noteq> its ! m \<and> e \<noteq> dd ! m)
           \<Longrightarrow> classList q e = classList ?p1 e"
    and vis: "\<And>m. ?n - b \<le> m \<and> m < ?n - Suc i \<Longrightarrow> \<not> visible q (its ! m) \<and> visible q (dd ! m)"
    by blast
  have run: "hideTrailing its dd (int b) i p = Inr q"
    using ib il m0 len q(1) by (simp add: hideTrailing_step)
  have str: "same_structure p q"
    by (rule same_structure_trans [OF _ q(2)])
       (rule same_structure_trans [OF same_structure_add same_structure_remove])
  have mem: "?item \<in> set its" "?clone \<in> set dd"
    using m0 len by simp_all
  have item_clone: "?item \<noteq> ?clone"
    using dist(3) mem by auto
  have item_other: "?item \<noteq> its ! m \<and> ?item \<noteq> dd ! m" if "m < ?n - Suc i" for m
  proof -
    have m: "m < ?n" "m \<noteq> ?m0" using that by simp_all
    have "its ! ?m0 \<noteq> its ! m"
      using dist(1) m m0 len by (simp add: nth_eq_iff_index_eq)
    moreover have "dd ! m \<in> set dd" using m(1) by simp
    then have "?item \<noteq> dd ! m" using dist(3) mem(1) by auto
    ultimately show ?thesis by simp
  qed
  have clone_other: "?clone \<noteq> its ! m \<and> ?clone \<noteq> dd ! m" if "m < ?n - Suc i" for m
  proof -
    have m: "m < ?n" "m \<noteq> ?m0" using that by simp_all
    have "dd ! ?m0 \<noteq> dd ! m"
      using dist(2) m m0 by (simp add: nth_eq_iff_index_eq)
    moreover have "its ! m \<in> set its" using m(1) len by simp
    then have "?clone \<noteq> its ! m" using dist(3) mem(2) by auto
    ultimately show ?thesis by simp
  qed
  have q_item: "classList q ?item = token_add ''hide'' (classList p ?item)"
    using frame [of ?item] item_other item_clone by simp
  have q_clone: "classList q ?clone =
      token_remove ''hide'' (classList (classList_add ?item ''hide'' p) ?clone)"
    using frame [of ?clone] clone_other by simp
  have fr: "\<forall>e. (\<forall>m. ?n - b \<le> m \<and> m < ?n - i \<longrightarrow> e \<noteq> its ! m \<and> e \<noteq> dd ! m)
           \<longrightarrow> classList q e = classList p e"
  proof (intro allI impI)
    fix e assume e: "\<forall>m. ?n - b \<le> m \<and> m < ?n - i \<longrightarrow> e \<noteq> its ! m \<and> e \<noteq> dd ! m"
    have "?n - b \<le> ?m0 \<and> ?m0 < ?n - i" using ib il by auto
    with e have ne: "e \<noteq> ?item" "e \<noteq> ?clone" by blast+
    have "\<forall>m. ?n - b \<le> m \<and> m < ?n - Suc i \<longrightarrow> e \<noteq> its ! m \<and> e \<noteq> dd ! m"
      using e by auto
    from frame [OF this] ne show "classList q e = classList p e" by simp
  qed
  have vs: "\<forall>m. ?n - b \<le> m \<and> m < ?n - i \<longrightarrow> \<not> visible q (its ! m) \<and> visible q (dd ! m)"
  proof (intro allI impI)
    fix m assume m: "?n - b \<le> m \<and> m < ?n - i"
    show "\<not> visible q (its ! m) \<and> visible q (dd ! m)"
    proof (cases "m = ?m0")
      case True
      then show ?thesis by (simp add: visible_def q_item q_clone)
    next
      case False
      with m have "?n - b \<le> m \<and> m < ?n - Suc i" by auto
      then show ?thesis by (rule vis)
    qed
  qed
  show ?case using run str fr vs by blast
qed

lemma amount_bounds:
  "0 \<le> getAmountOfItemsToCollapse c p"
  "getAmountOfItemsToCollapse c p \<le> int (length (items c))"
  using scan_amount_le [of c "offsetWidth p" 0 "\<lparr>amount = 0, width = Some 0\<rparr>"]
  by (simp_all add: getAmountOfItemsToCollapse_def Let_def)

lemma same_structure_fields:
  assumes "same_structure p q"
  shows "listItems q = listItems p" "menuOf q = menuOf p" "dropdownOf q = dropdownOf p"
    "offsetWidth q = offsetWidth p" "parentElement q = parentElement p"
    "sensors q = sensors p" "listeners q = listeners p" "nextRef q = nextRef p"
    "document_querySelector q = document_querySelector p" "boundingWidth q = boundingWidth p"
proof -
  have q: "q = p\<lparr>classList := classList q\<rparr>" using assms by (simp add: same_structure_def)
  show "listItems q = listItems p" by (subst q) simp
  show "menuOf q = menuOf p" by (subst q) simp
  show "dropdownOf q = dropdownOf p" by (subst q) simp
  show "offsetWidth q = offsetWidth p" by (subst q) simp
  show "parentElement q = parentElement p" by (subst q) simp
  show "sensors q = sensors p" by (subst q) simp
  show "listeners q = listeners p" by (subst q) simp
  show "nextRef q = nextRef p" by (subst q) simp
  show "document_querySelector q = document_querySelector p" by (subst q) simp
  show "boundingWidth q = boundingWidth p" by (subst q) simp
qed

lemma amount_same_structure:
  "same_structure p q \<Longrightarrow> getAmountOfItemsToCollapse c q = getAmountOfItemsToCollapse c p"
  by (simp add: getAmountOfItemsToCollapse_def same_structure_fields)

lemma injected_same_structure:
  "same_structure p q \<Longrightarrow> injected c q menu clones = injected c p menu clones"
  by (simp add: injected_def dropdownItemsOf_def same_structure_fields cong: option.case_cong)

lemma collapse_ok:
  assumes inj: "injected c p menu clones"
  defines "n \<equiv> length (items c)"
  defines "k \<equiv> nat (getAmountOfItemsToCollapse c p)"
  shows "\<exists>q. collapse c p = Inr q \<and> same_structure p q \<and>
      (\<forall>j<n. visible q (items c ! j) \<longleftrightarrow> j < n - k) \<and>
      (\<forall>j<n. visible q (clones ! j) \<longleftrightarrow> \<not> j < n - k) \<and>
      classList q menu = menu_classes (getAmountOfItemsToCollapse c p) (classList p menu) \<and>
      (\<forall>e. e \<notin> set (menu # items c @ clones) \<longrightarrow> classList q e = classList p e)"
proof -
  let ?a = "getAmountOfItemsToCollapse c p"
  let ?its = "items c"
  have a: "?a = int k" "k \<le> n"
    using amount_bounds [of c p] by (simp_all add: k_def n_def)
  from inj obtain dropdown where look: "menuOf p (container c) = Some menu"
      "dropdownOf p menu = Some dropdown" "listItems p dropdown = clones"
    by (auto simp: injected_def dropdownItemsOf_def split: option.splits)
  have len: "length ?its = length clones" and dist: "distinct ?its" "distinct clones"
      "set ?its \<inter> set clones = {}" and menu: "menu \<notin> set ?its" "menu \<notin> set clones"
    using inj by (auto simp: injected_def)
  let ?p1 = "classList_remove menu ''hide'' p"
  let ?p2 = "if ?a = 0 then classList_add menu ''hide'' ?p1 else ?p1"
  have str2: "same_structure p ?p2"
    by (auto intro: same_structure_trans [OF same_structure_remove same_structure_add])
  have cl2: "classList ?p2 = (classList p)(menu := menu_classes ?a (classList p menu))"
    by (auto simp: menu_classes_def)
  have "0 + length ?its \<le> length clones" using len by simp
  from clearState_ok [OF this dist, of ?p2]
  obtain p3 where p3: "clearState ?its clones 0 ?p2 = Inr p3" "same_structure ?p2 p3"
    and fr3: "\<And>e. e \<notin> set ?its \<Longrightarrow> e \<notin> set clones \<Longrightarrow> classList p3 e = classList ?p2 e"
    and vis3: "\<And>j. j < length ?its \<Longrightarrow> visible p3 (?its ! j) \<and> \<not> visible p3 (clones ! j)"
    by auto
  have "k \<le> length clones" using a(2) len by (simp add: n_def)
  from hideTrailing_ok [OF len this dist le0, of p3]
  obtain q where q: "hideTrailing ?its clones (int k) 0 p3 = Inr q" "same_structure p3 q"
    and fr: "\<And>e. (\<forall>m. length clones - k \<le> m \<and> m < length clones \<longrightarrow> e \<noteq> ?its ! m \<and> e \<noteq> clones ! m)
           \<Longrightarrow> classList q e = classList p3 e"
    and vis: "\<And>m. length clones - k \<le> m \<and> m < length clones \<Longrightarrow>
           \<not> visible q (?its ! m) \<and> visible q (clones ! m)"
    by auto
  have run: "collapse c p = Inr q"
    using look p3(1) q(1) a(1) by (simp add: collapse_def Let_def)
  have str: "same_structure p q"
    by (rule same_structure_trans [OF same_structure_trans [OF str2 p3(2)] q(2)])
  have nlen: "length clones = n" using len by (simp add: n_def)
  have outside: "classList q e = classList p3 e" if "e \<notin> set ?its" "e \<notin> set clones" for e
  proof (rule fr, intro allI impI)
    fix m assume "length clones - k \<le> m \<and> m < length clones"
    then have "?its ! m \<in> set ?its" "clones ! m \<in> set clones" using len by simp_all
    with that show "e \<noteq> ?its ! m \<and> e \<noteq> clones ! m" by auto
  qed
  have early: "classList q (?its ! j) = classList p3 (?its ! j) \<and>
               classList q (clones ! j) = classList p3 (clones ! j)" if j: "j < n - k" for j
  proof -
    have jn: "j < length ?its" "j < length clones" using j nlen len by simp_all
    have ne: "?its ! j \<noteq> ?its ! m \<and> ?its ! j \<noteq> clones ! m \<and>
              clones ! j \<noteq> ?its ! m \<and> clones ! j \<noteq> clones ! m"
      if m: "length clones - k \<le> m \<and> m < length clones" for m
    proof -
      have mj: "m \<noteq> j" "m < length ?its" "m < length clones" using m j nlen len by simp_all
      have "?its ! j \<noteq> ?its ! m" using dist(1) jn mj by (simp add: nth_eq_iff_index_eq)
      moreover have "clones ! j \<noteq> clones ! m" using dist(2) jn mj by (simp add: nth_eq_iff_index_eq)
      moreover have "?its ! j \<in> set ?its" "?its ! m \<in> set ?its"
        "clones ! j \<in> set clones" "clones ! m \<in> set clones"
        using jn mj by simp_all
      then have "?its ! j \<noteq> clones ! m" "clones ! j \<noteq> ?its ! m" using dist(3) by auto
      ultimately show ?thesis by simp
    qed
    show ?thesis using fr [of "?its ! j"] fr [of "clones ! j"] ne by blast
  qed
  have v_items: "\<forall>j<n. visible q (?its ! j) \<longleftrightarrow> j < n - k"
  proof (intro allI impI)
    fix j assume j: "j < n"
    show "visible q (?its ! j) \<longleftrightarrow> j < n - k"
    proof (cases "j < n - k")
      case True
      then show ?thesis using early [OF True] vis3 [of j] j by (simp add: visible_def n_def)
    next
      case False
      then show ?thesis using vis [of j] j nlen by simp
    qed
  qed
  have v_clones: "\<forall>j<n. visible q (clones ! j) \<longleftrightarrow> \<not> j < n - k"
  proof (intro allI impI)
    fix j assume j: "j < n"
    show "visible q (clones ! j) \<longleftrightarrow> \<not> j < n - k"
    proof (cases "j < n - k")
      case True
      then show ?thesis using early [OF True] vis3 [of j] j by (simp add: visible_def n_def)
    next
      case False
      then show ?thesis using vis [of j] j nlen by simp
    qed
  qed
  have q_menu: "classList q menu = menu_classes ?a (classList p menu)"
    using outside [OF menu] fr3 [OF menu] cl2 by simp
  have rest: "\<forall>e. e \<notin> set (menu # ?its @ clones) \<longrightarrow> classList q e = classList p e"
  proof (intro allI impI)
    fix e assume "e \<notin> set (menu # ?its @ clones)"
    then have e: "e \<noteq> menu" "e \<notin> set ?its" "e \<notin> set clones" by auto
    show "classList q e = classList p e"
      using outside [OF e(2,3)] fr3 [OF e(2,3)] cl2 e(1) by simp
  qed
  show ?thesis using run str v_items v_clones q_menu rest by blast
qed

section \<open>Injection\<close>

lemma cloneNodes_flat:
  "\<forall>x\<in>set its. listItems p x = [] \<Longrightarrow>
   cloneNodes p its n = map (\<lambda>i. (i, [])) [n..<n + length its]"
proof (induction its arbitrary: n)
  case Nil
  then show ?case by simp
next
  case (Cons x xs)
  have "n < n + length (x # xs)" by simp
  then have "[n..<n + length (x # xs)] = n # [Suc n..<n + length (x # xs)]"
    by (rule upt_conv_Cons)
  then have "[n..<n + length (x # xs)] = n # [Suc n..<Suc n + length xs]"
    by simp
  then show ?case using Cons by simp
qed

lemma concat_flat:
  "concat (map (\<lambda>(clone, inner). clone # inner) (map (\<lambda>i. (i, [])) xs)) = xs"
  by (induction xs) simp_all

lemma inject_injected:
  assumes none: "menuOf p (container c) = None"
    and flat: "\<forall>x\<in>set (items c). listItems p x = []"
    and dist: "distinct (items c)"
    and old: "\<forall>x\<in>set (items c). x < nextRef p" "container c < nextRef p"
  shows "injected c (inject c p) (nextRef p)
           [nextRef p + 5..<nextRef p + 5 + length (items c)]"
proof -
  let ?n = "nextRef p"
  let ?lis = "[?n + 5..<?n + 5 + length (items c)]"
  have lis: "concat (map (\<lambda>(clone, inner). clone # inner)
                 (cloneNodes p (items c) (?n + 5))) = ?lis"
    by (simp only: cloneNodes_flat [OF flat] concat_flat)
  have look: "dropdownItemsOf c (inject c p) = Some (?n, ?lis)"
    using none old(2) lis by (simp add: dropdownItemsOf_def inject_def Let_def)
  have d: "distinct (?n # items c @ ?lis)"
    using dist old(1) by auto
  show ?thesis using look d by (simp add: injected_def)
qed

section \<open>The amount to collapse and the items that fit\<close>

lemma amount_fitting:
  assumes "length (itemsDimensions c) = length (items c)"
  shows "getAmountOfItemsToCollapse c p =
         int (length (items c)) - int (fitting (offsetWidth p) (threshold c) (itemsDimensions c))"
  using scan_aligned [OF assms, of "\<lparr>amount = 0, width = Some 0\<rparr>" 0 "offsetWidth p"] assms
  by (simp add: getAmountOfItemsToCollapse_def fitting_def Let_def)

lemma fitting_le: "fitting pw thr ws \<le> length ws"
  using length_takeWhile_le [of _ "[0..<length ws]"] by (simp add: fitting_def)

lemma fitting_counted:
  assumes "j < fitting pw thr ws" "i \<le> j"
  shows "\<not> available pw ws i < thr"
proof -
  let ?P = "\<lambda>j. \<not> available pw ws j < thr"
  let ?t = "takeWhile ?P [0..<length ws]"
  have i: "i < length ?t" using assms by (simp add: fitting_def)
  then have "i < length ws" using fitting_le [of pw thr ws] by (simp add: fitting_def)
  then have "?t ! i = i" using i by (simp add: takeWhile_nth)
  moreover have "?t ! i \<in> set ?t" using i by (rule nth_mem)
  ultimately have "i \<in> set ?t" by simp
  then show ?thesis by (auto dest: set_takeWhileD)
qed

lemma fitting_counts:
  assumes "j < length ws" "\<forall>i\<le>j. \<not> available pw ws i < thr"
  shows "j < fitting pw thr ws"
proof -
  let ?P = "\<lambda>j. \<not> available pw ws j < thr"
  have "Suc j \<le> length (takeWhile ?P [0..<length ws])"
  proof (rule length_takeWhile_less_P_nth)
    fix i assume "i < Suc j"
    then show "?P ([0..<length ws] ! i)" using assms by simp
  next
    show "Suc j \<le> length [0..<length ws]" using assms(1) by simp
  qed
  then show ?thesis by (simp add: fitting_def)
qed

lemma fitting_stops:
  assumes "fitting pw thr ws < length ws"
  shows "available pw ws (fitting pw thr ws) < thr"
proof -
  let ?P = "\<lambda>j. \<not> available pw ws j < thr"
  let ?xs = "[0..<length ws]"
  have "length (takeWhile ?P ?xs) < length ?xs" using assms by (simp add: fitting_def)
  then have "\<not> ?P (?xs ! length (takeWhile ?P ?xs))" by (rule nth_length_takeWhile)
  then show ?thesis using assms by (simp add: fitting_def)
qed

text \<open>
  C1. With one captured width per item, the amount to collapse is the number of items
  minus the number of items that fit. The items that fit are those of the longest
  initial stretch in which every item leaves at least the threshold available (an item
  that leaves exactly the threshold fits); the scan stops at the first item that leaves
  less, which is not counted.
\<close>

theorem amount_is_count_minus_fitting:
  assumes "length (itemsDimensions c) = length (items c)"
  shows "getAmountOfItemsToCollapse c p =
           int (length (items c))
             - int (fitting (offsetWidth p) (threshold c) (itemsDimensions c)) \<and>
         fitting (offsetWidth p) (threshold c) (itemsDimensions c) \<le> length (items c) \<and>
         (\<forall>j<length (items c).
            j < fitting (offsetWidth p) (threshold c) (itemsDimensions c) \<longleftrightarrow>
            (\<forall>i\<le>j. threshold c \<le> available (offsetWidth p) (itemsDimensions c) i)) \<and>
         (fitting (offsetWidth p) (threshold c) (itemsDimensions c) < length (items c) \<longrightarrow>
            available (offsetWidth p) (itemsDimensions c)
              (fitting (offsetWidth p) (threshold c) (itemsDimensions c)) < threshold c)"
proof (intro conjI allI impI)
  show "getAmountOfItemsToCollapse c p =
        int (length (items c)) - int (fitting (offsetWidth p) (threshold c) (itemsDimensions c))"
    by (rule amount_fitting [OF assms])
  show "fitting (offsetWidth p) (threshold c) (itemsDimensions c) \<le> length (items c)"
    using fitting_le [of "offsetWidth p" "threshold c" "itemsDimensions c"] assms by simp
next
  fix j assume j: "j < length (items c)"
  show "j < fitting (offsetWidth p) (threshold c) (itemsDimensions c) \<longleftrightarrow>
        (\<forall>i\<le>j. threshold c \<le> available (offsetWidth p) (itemsDimensions c) i)"
    using fitting_counted [of j "offsetWidth p" "threshold c" "itemsDimensions c"]
      fitting_counts [of j "itemsDimensions c" "offsetWidth p" "threshold c"] j assms
    by (auto simp: not_less)
next
  assume "fitting (offsetWidth p) (threshold c) (itemsDimensions c) < length (items c)"
  then show "available (offsetWidth p) (itemsDimensions c)
      (fitting (offsetWidth p) (threshold c) (itemsDimensions c)) < threshold c"
    using assms by (simp add: fitting_stops)
qed

lemma upt_5: "[0..<5] = [0, 1, 2, 3, 4]"
  by (simp add: upt_rec)

lemma bar_fitting: "fitting 350 50 [100, 100, 100, 100, 100] = 3"
  by (simp add: fitting_def available_def upt_5)

theorem amount_is_count_minus_fitting_witness:
  "length (itemsDimensions bar) = length (items bar) \<and>
   getAmountOfItemsToCollapse bar nav = 2 \<and>
   fitting (offsetWidth nav) (threshold bar) (itemsDimensions bar) = 3 \<and>
   available (offsetWidth nav) (itemsDimensions bar) 2 = threshold bar \<and>
   available (offsetWidth nav) (itemsDimensions bar) 3 < threshold bar"
  using amount_is_count_minus_fitting [of bar nav]
  by (simp add: bar_def nav_def bar_fitting available_def)

section \<open>The amount to collapse is an index range\<close>

lemma hideTrailing_returns:
  assumes len: "length its = length dd" and b: "b \<le> length dd"
  shows "\<exists>q. hideTrailing its dd (int b) i p = Inr q"
proof (induction "b - i" arbitrary: i p)
  case 0
  then show ?case by (simp add: hideTrailing_done)
next
  case (Suc k)
  then have ib: "i < b" by simp
  then have il: "i < length dd" using b by simp
  have "k = b - Suc i" using Suc.hyps(2) by simp
  from Suc.hyps(1) [OF this] show ?case
    using ib il len by (simp add: hideTrailing_step)
qed

lemma trailing_index:
  assumes "int i < a" "a \<le> int n"
  shows "0 \<le> int n - int i - 1 \<and> int n - int i - 1 < int n"
  using assms by simp

text \<open>
  C10. The amount to collapse lies between 0 and the number of items, for every
  instance and every page. So when the dropdown holds one clone per item, every index
  \<open>dropdownItems.length - i - 1\<close> of the loop of lines 93 to 99 is an index of both
  the items and the clones, both lookups find an element, and the loop ends without a
  \<open>TypeError\<close>.
\<close>

theorem amount_in_range:
  "0 \<le> getAmountOfItemsToCollapse c p \<and>
   getAmountOfItemsToCollapse c p \<le> int (length (items c)) \<and>
   (\<forall>clones. length clones = length (items c) \<longrightarrow>
      (\<forall>i. int i < getAmountOfItemsToCollapse c p \<longrightarrow>
         0 \<le> int (length clones) - int i - 1 \<and>
         int (length clones) - int i - 1 < int (length (items c)) \<and>
         nth_or_undefined (items c) (int (length clones) - int i - 1)
           = Some (items c ! (length clones - i - 1)) \<and>
         nth_or_undefined clones (int (length clones) - int i - 1)
           = Some (clones ! (length clones - i - 1))) \<and>
      (\<forall>q. \<exists>q'. hideTrailing (items c) clones (getAmountOfItemsToCollapse c p) 0 q = Inr q'))"
proof (intro conjI allI impI)
  show "0 \<le> getAmountOfItemsToCollapse c p"
    and up: "getAmountOfItemsToCollapse c p \<le> int (length (items c))"
    by (rule amount_bounds)+
next
  fix clones :: "ref list" and i
  assume len: "length clones = length (items c)" and i: "int i < getAmountOfItemsToCollapse c p"
  have range: "0 \<le> int (length clones) - int i - 1 \<and>
      int (length clones) - int i - 1 < int (length clones)"
    using i amount_bounds(2) [of c p] len by (intro trailing_index) simp_all
  then show "0 \<le> int (length clones) - int i - 1"
    and "int (length clones) - int i - 1 < int (length (items c))"
    using len by simp_all
  have il: "i < length clones"
    using i amount_bounds(2) [of c p] len by simp
  then have idx: "int (length clones) - int i - 1 = int (length clones - i - 1)"
    by simp
  have lt: "length clones - i - 1 < length clones" using il by simp
  show "nth_or_undefined (items c) (int (length clones) - int i - 1)
          = Some (items c ! (length clones - i - 1))"
    unfolding idx nth_or_undefined_nat using lt len by simp
  show "nth_or_undefined clones (int (length clones) - int i - 1)
          = Some (clones ! (length clones - i - 1))"
    unfolding idx nth_or_undefined_nat using lt by simp
next
  fix clones :: "ref list" and q
  assume len: "length clones = length (items c)"
  obtain b where b: "getAmountOfItemsToCollapse c p = int b" "b \<le> length clones"
    using amount_bounds [of c p] len
    by (metis nat_0_le nat_le_iff)
  show "\<exists>q'. hideTrailing (items c) clones (getAmountOfItemsToCollapse c p) 0 q = Inr q'"
    unfolding b(1) using len b(2) by (intro hideTrailing_returns) simp_all
qed

theorem amount_in_range_witness:
  "0 \<le> getAmountOfItemsToCollapse bar nav \<and>
   getAmountOfItemsToCollapse bar nav \<le> int (length (items bar)) \<and>
   length [12, 13, 14, 15, 16 :: ref] = length (items bar) \<and>
   int 1 < getAmountOfItemsToCollapse bar nav \<and>
   nth_or_undefined (items bar) (int (length [12, 13, 14, 15, 16 :: ref]) - int 1 - 1) = Some 5 \<and>
   nth_or_undefined [12, 13, 14, 15, 16 :: ref] (int (length [12, 13, 14, 15, 16 :: ref]) - int 1 - 1)
     = Some 15 \<and>
   (\<exists>q'. hideTrailing (items bar) [12, 13, 14, 15, 16]
           (getAmountOfItemsToCollapse bar nav) 0 nav = Inr q')"
proof -
  let ?clones = "[12, 13, 14, 15, 16 :: ref]"
  have a: "getAmountOfItemsToCollapse bar nav = 2"
    using amount_fitting [of bar nav] by (simp add: bar_def nav_def bar_fitting)
  have len: "length ?clones = length (items bar)"
    by (simp add: bar_def)
  have i: "int 1 < getAmountOfItemsToCollapse bar nav" by (simp add: a)
  note r = amount_in_range [of bar nav]
  from r have b: "0 \<le> getAmountOfItemsToCollapse bar nav"
    "getAmountOfItemsToCollapse bar nav \<le> int (length (items bar))" by blast+
  from r len i have
    "nth_or_undefined (items bar) (int (length ?clones) - int 1 - 1)
       = Some (items bar ! (length ?clones - 1 - 1))"
    "nth_or_undefined ?clones (int (length ?clones) - int 1 - 1)
       = Some (?clones ! (length ?clones - 1 - 1))"
    by blast+
  then have l: "nth_or_undefined (items bar) (int (length ?clones) - int 1 - 1) = Some 5"
    "nth_or_undefined ?clones (int (length ?clones) - int 1 - 1) = Some 15"
    by (simp_all add: bar_def)
  from r len have
    "\<exists>q'. hideTrailing (items bar) ?clones (getAmountOfItemsToCollapse bar nav) 0 nav = Inr q'"
    by blast
  then show ?thesis using b len i l by blast
qed

section \<open>The partition after collapse\<close>

lemma hide_menu_classes: "''hide'' \<in> set (menu_classes a ts) \<longleftrightarrow> a = 0"
  by (simp add: menu_classes_def)

lemma injected_dropdownItemsOf:
  "injected c p menu clones \<Longrightarrow> dropdownItemsOf c p = Some (menu, clones)"
  by (simp add: injected_def)

lemma same_structure_classList [simp]: "same_structure p (p\<lparr>classList := cl\<rparr>)"
  by (simp add: same_structure_def)


lemma ex_upt: "[12..<17] = [12, 13, 14, 15, 16]"
  by (simp add: upt_rec)

lemma ex_injected: "injected bar (inject bar nav) 7 [12, 13, 14, 15, 16]"
proof -
  have "injected bar (inject bar nav) (nextRef nav)
          [nextRef nav + 5..<nextRef nav + 5 + length (items bar)]"
    by (rule inject_injected) (simp_all add: bar_def nav_def)
  then show ?thesis by (simp add: nav_def bar_def ex_upt)
qed

lemma ex_amount: "getAmountOfItemsToCollapse bar (inject bar nav) = 2"
proof -
  have "offsetWidth (inject bar nav) = 350" by (simp add: inject_def Let_def nav_def)
  then show ?thesis
    using amount_fitting [of bar "inject bar nav"] by (simp add: bar_def bar_fitting)
qed

text \<open>
  C2. After an injection (the menu is found, the dropdown holds one clone per item, and
  items and clones are different elements), whatever classes the elements carry before
  and whatever amount the scan computes, \<open>collapse\<close> returns, finds the same clones
  afterwards, and leaves exactly one of each item and its clone visible.
\<close>

theorem partition_complete:
  assumes "injected c p menu clones"
  shows "\<exists>q. collapse c p = Inr q \<and> dropdownItemsOf c q = Some (menu, clones) \<and>
     (\<forall>i<length (items c). visible q (items c ! i) \<noteq> visible q (clones ! i))"
proof -
  from collapse_ok [OF assms]
  obtain q where q: "collapse c p = Inr q" "same_structure p q"
    and its: "\<forall>j<length (items c). visible q (items c ! j) \<longleftrightarrow>
                j < length (items c) - nat (getAmountOfItemsToCollapse c p)"
    and cls: "\<forall>j<length (items c). visible q (clones ! j) \<longleftrightarrow>
                \<not> j < length (items c) - nat (getAmountOfItemsToCollapse c p)"
    by blast
  have "dropdownItemsOf c q = Some (menu, clones)"
    using assms injected_same_structure [OF q(2), of c menu clones]
    by (simp add: injected_dropdownItemsOf)
  then show ?thesis using q(1) its cls by auto
qed

theorem partition_complete_witness:
  "injected bar (inject bar nav) 7 [12, 13, 14, 15, 16] \<and>
   (\<exists>q. collapse bar (inject bar nav) = Inr q \<and>
        visible q 2 \<noteq> visible q 12 \<and> visible q 3 \<noteq> visible q 13 \<and>
        visible q 4 \<noteq> visible q 14 \<and> visible q 5 \<noteq> visible q 15 \<and>
        visible q 6 \<noteq> visible q 16)"
proof -
  have its: "items bar = [2, 3, 4, 5, 6]" by (simp add: bar_def)
  show ?thesis
    using partition_complete [OF ex_injected] ex_injected
    by (simp add: its All_less_Suc2) blast
qed



text \<open>
  C4. After an injection, \<open>collapse\<close> leaves the menu hidden if and only if the computed
  amount is zero: the class \<open>hide\<close> is first removed from the menu, then added again
  exactly when the amount is 0, and the two loops do not touch the menu.
\<close>

theorem menu_hidden_iff_zero:
  assumes "injected c p menu clones"
  shows "\<exists>q. collapse c p = Inr q \<and>
     (\<not> visible q menu \<longleftrightarrow> getAmountOfItemsToCollapse c p = 0) \<and>
     classList q menu =
       (if getAmountOfItemsToCollapse c p = 0
        then token_add ''hide'' (token_remove ''hide'' (classList p menu))
        else token_remove ''hide'' (classList p menu))"
proof -
  from collapse_ok [OF assms]
  obtain q where q: "collapse c p = Inr q"
    and m: "classList q menu = menu_classes (getAmountOfItemsToCollapse c p) (classList p menu)"
    by blast
  have "\<not> visible q menu \<longleftrightarrow> getAmountOfItemsToCollapse c p = 0"
    by (simp add: visible_def m hide_menu_classes)
  moreover have "classList q menu =
       (if getAmountOfItemsToCollapse c p = 0
        then token_add ''hide'' (token_remove ''hide'' (classList p menu))
        else token_remove ''hide'' (classList p menu))"
    by (simp add: m menu_classes_def)
  ultimately show ?thesis using q by blast
qed

theorem menu_hidden_iff_zero_witness:
  "injected bar (inject bar nav) 7 [12, 13, 14, 15, 16] \<and>
   getAmountOfItemsToCollapse bar (inject bar nav) \<noteq> 0 \<and>
   (\<exists>q. collapse bar (inject bar nav) = Inr q \<and> visible q 7 \<and>
        classList q 7 = [''collapsible-menu''])"
proof -
  have cl: "classList (inject bar nav) 7 = [''collapsible-menu'']"
    by (simp add: inject_def Let_def nav_def bar_def)
  show ?thesis
    using menu_hidden_iff_zero [OF ex_injected] ex_injected
    by (simp add: ex_amount cl token_remove_def)
qed

section \<open>Independence of the prior state\<close>

lemma collapse_visibility_determined:
  assumes p: "injected c p menu clones" "collapse c p = Inr q"
    and p2: "injected c p2 menu clones" "collapse c p2 = Inr q2"
    and same: "getAmountOfItemsToCollapse c p2 = getAmountOfItemsToCollapse c p"
  shows "\<forall>e\<in>set (menu # items c @ clones). visible q2 e = visible q e"
proof
  fix e assume e: "e \<in> set (menu # items c @ clones)"
  let ?n = "length (items c)"
  let ?k = "nat (getAmountOfItemsToCollapse c p)"
  have len: "length clones = ?n" using p(1) by (simp add: injected_def)
  from collapse_ok [OF p(1)] p(2)
  have q: "\<forall>j<?n. visible q (items c ! j) \<longleftrightarrow> j < ?n - ?k"
    "\<forall>j<?n. visible q (clones ! j) \<longleftrightarrow> \<not> j < ?n - ?k"
    "classList q menu = menu_classes (getAmountOfItemsToCollapse c p) (classList p menu)"
    by auto
  from collapse_ok [OF p2(1)] p2(2) same
  have q2: "\<forall>j<?n. visible q2 (items c ! j) \<longleftrightarrow> j < ?n - ?k"
    "\<forall>j<?n. visible q2 (clones ! j) \<longleftrightarrow> \<not> j < ?n - ?k"
    "classList q2 menu = menu_classes (getAmountOfItemsToCollapse c p) (classList p2 menu)"
    by auto
  from e consider "e = menu" | "e \<in> set (items c)" | "e \<in> set clones" by auto
  then show "visible q2 e = visible q e"
  proof cases
    case 1
    then show ?thesis by (simp add: visible_def q(3) q2(3) hide_menu_classes)
  next
    case 2
    then obtain j where "j < ?n" "e = items c ! j" by (auto simp: in_set_conv_nth)
    then show ?thesis using q(1) q2(1) by simp
  next
    case 3
    then obtain j where "j < ?n" "e = clones ! j" using len by (auto simp: in_set_conv_nth)
    then show ?thesis using q(2) q2(2) by simp
  qed
qed

text \<open>
  C7. After an injection, the visibility that \<open>collapse\<close> leaves on the menu, the items
  and the clones does not depend on the class lists before the call: started from any
  other class lists \<open>cl\<close> on the same page, \<open>collapse\<close> leaves the same visibility. In
  particular a second call right after the first leaves the visibility as it is.
\<close>

theorem collapse_state_independent:
  assumes "injected c p menu clones"
  shows "\<exists>q. collapse c p = Inr q \<and>
     (\<forall>cl. \<exists>q2. collapse c (p\<lparr>classList := cl\<rparr>) = Inr q2 \<and>
        (\<forall>e\<in>set (menu # items c @ clones). visible q2 e = visible q e)) \<and>
     (\<exists>q'. collapse c q = Inr q' \<and>
        (\<forall>e\<in>set (menu # items c @ clones). visible q' e = visible q e))"
proof -
  from collapse_ok [OF assms]
  obtain q where q: "collapse c p = Inr q" "same_structure p q" by blast
  have other: "\<exists>q2. collapse c p2 = Inr q2 \<and>
        (\<forall>e\<in>set (menu # items c @ clones). visible q2 e = visible q e)"
    if s: "same_structure p p2" for p2
  proof -
    have inj: "injected c p2 menu clones"
      using assms injected_same_structure [OF s] by simp
    from collapse_ok [OF inj] obtain q2 where q2: "collapse c p2 = Inr q2" by blast
    have "\<forall>e\<in>set (menu # items c @ clones). visible q2 e = visible q e"
      using assms q(1) inj q2 amount_same_structure [OF s]
      by (rule collapse_visibility_determined)
    then show ?thesis using q2 by blast
  qed
  have "\<forall>cl. \<exists>q2. collapse c (p\<lparr>classList := cl\<rparr>) = Inr q2 \<and>
        (\<forall>e\<in>set (menu # items c @ clones). visible q2 e = visible q e)"
    by (intro allI other) simp
  then show ?thesis using q(1) other [OF q(2)] by blast
qed

theorem collapse_state_independent_witness:
  "injected bar (inject bar nav) 7 [12, 13, 14, 15, 16] \<and>
   (\<exists>q q2 q'. collapse bar (inject bar nav) = Inr q \<and>
      collapse bar ((inject bar nav)\<lparr>classList := (\<lambda>e. [''hide''])\<rparr>) = Inr q2 \<and>
      collapse bar q = Inr q' \<and>
      map (visible q2) [7, 2, 3, 4, 5, 6, 12, 13, 14, 15, 16]
        = map (visible q) [7, 2, 3, 4, 5, 6, 12, 13, 14, 15, 16] \<and>
      map (visible q') [7, 2, 3, 4, 5, 6, 12, 13, 14, 15, 16]
        = map (visible q) [7, 2, 3, 4, 5, 6, 12, 13, 14, 15, 16])"
proof -
  have its: "items bar = [2, 3, 4, 5, 6]" by (simp add: bar_def)
  from collapse_state_independent [OF ex_injected]
  obtain q where q: "collapse bar (inject bar nav) = Inr q"
    and a: "\<forall>cl. \<exists>q2. collapse bar ((inject bar nav)\<lparr>classList := cl\<rparr>) = Inr q2 \<and>
        (\<forall>e\<in>set (7 # items bar @ [12, 13, 14, 15, 16]). visible q2 e = visible q e)"
    and b: "\<exists>q'. collapse bar q = Inr q' \<and>
        (\<forall>e\<in>set (7 # items bar @ [12, 13, 14, 15, 16]). visible q' e = visible q e)"
    by blast
  from a obtain q2 where q2:
    "collapse bar ((inject bar nav)\<lparr>classList := (\<lambda>e. [''hide''])\<rparr>) = Inr q2"
    "\<forall>e\<in>set (7 # items bar @ [12, 13, 14, 15, 16]). visible q2 e = visible q e"
    by blast
  from b obtain q' where q': "collapse bar q = Inr q'"
    "\<forall>e\<in>set (7 # items bar @ [12, 13, 14, 15, 16]). visible q' e = visible q e"
    by blast
  have "map (visible q2) [7, 2, 3, 4, 5, 6, 12, 13, 14, 15, 16]
        = map (visible q) [7, 2, 3, 4, 5, 6, 12, 13, 14, 15, 16]"
    using q2(2) by (simp add: its)
  moreover have "map (visible q') [7, 2, 3, 4, 5, 6, 12, 13, 14, 15, 16]
        = map (visible q) [7, 2, 3, 4, 5, 6, 12, 13, 14, 15, 16]"
    using q'(2) by (simp add: its)
  ultimately show ?thesis using ex_injected q q2(1) q'(1) by blast
qed

section \<open>Edge cases, a scenario, and construction\<close>







lemma injected_offsetWidth [simp]:
  "injected c (p\<lparr>offsetWidth := w\<rparr>) menu clones = injected c p menu clones"
  by (simp add: injected_def dropdownItemsOf_def cong: option.case_cong)


text \<open>
  C6. Five items of width 100 each, a page of width 350 and a threshold of 50: the
  available space after items 1 to 4 is 250, 150, 50 and -50, three items fit, the
  amount is 2, and after an injection \<open>collapse\<close> hides exactly the items 4 and 5, shows
  exactly their clones and leaves the menu visible.
\<close>

theorem scenario_five_items:
  assumes "itemsDimensions c = [100, 100, 100, 100, 100]"
    and "items c = [i1, i2, i3, i4, i5]"
    and "threshold c = 50"
    and "offsetWidth p = 350"
    and "injected c p menu clones"
  shows "map (available (offsetWidth p) (itemsDimensions c)) [0, 1, 2, 3] = [250, 150, 50, - 50] \<and>
         fitting (offsetWidth p) (threshold c) (itemsDimensions c) = 3 \<and>
         getAmountOfItemsToCollapse c p = 2 \<and>
         (\<exists>q. collapse c p = Inr q \<and>
              map (visible q) (items c) = [True, True, True, False, False] \<and>
              map (visible q) clones = [False, False, False, True, True] \<and>
              visible q menu)"
proof -
  have av: "map (available (offsetWidth p) (itemsDimensions c)) [0, 1, 2, 3]
            = [250, 150, 50, - 50]"
    by (simp add: assms(1,4) available_def)
  have fit: "fitting (offsetWidth p) (threshold c) (itemsDimensions c) = 3"
    by (simp add: assms(1,3,4) bar_fitting)
  have a: "getAmountOfItemsToCollapse c p = 2"
    using amount_fitting [of c p] fit by (simp add: assms(1,2))
  have "length clones = 5" using assms(5) by (simp add: injected_def assms(2))
  then obtain c1 c2 c3 c4 c5 where clones: "clones = [c1, c2, c3, c4, c5]"
    by (auto simp: numeral_eq_Suc length_Suc_conv)
  from collapse_ok [OF assms(5)]
  obtain q where q: "collapse c p = Inr q"
    and its: "\<forall>j<length (items c). visible q (items c ! j) \<longleftrightarrow>
                j < length (items c) - nat (getAmountOfItemsToCollapse c p)"
    and cls: "\<forall>j<length (items c). visible q (clones ! j) \<longleftrightarrow>
                \<not> j < length (items c) - nat (getAmountOfItemsToCollapse c p)"
    and m: "classList q menu = menu_classes (getAmountOfItemsToCollapse c p) (classList p menu)"
    by blast
  have v1: "map (visible q) (items c) = [True, True, True, False, False]"
    using its by (simp add: a assms(2) All_less_Suc2)
  have v2: "map (visible q) clones = [False, False, False, True, True]"
    using cls by (simp add: a assms(2) clones All_less_Suc2)
  have v3: "visible q menu"
    by (simp add: visible_def m hide_menu_classes a)
  show ?thesis by (intro conjI exI [of _ q] av fit a q v1 v2 v3)
qed

theorem scenario_five_items_witness:
  "itemsDimensions bar = [100, 100, 100, 100, 100] \<and>
   items bar = [2, 3, 4, 5, 6] \<and> threshold bar = 50 \<and> offsetWidth (inject bar nav) = 350 \<and>
   injected bar (inject bar nav) 7 [12, 13, 14, 15, 16] \<and>
   getAmountOfItemsToCollapse bar (inject bar nav) = 2 \<and>
   (\<exists>q. collapse bar (inject bar nav) = Inr q \<and>
        map (visible q) [2, 3, 4, 5, 6] = [True, True, True, False, False] \<and>
        map (visible q) [12, 13, 14, 15, 16] = [False, False, False, True, True] \<and>
        visible q 7)"
proof -
  have h: "itemsDimensions bar = [100, 100, 100, 100, 100]" "items bar = [2, 3, 4, 5, 6]"
    "threshold bar = 50"
    by (simp_all add: bar_def)
  have w: "offsetWidth (inject bar nav) = 350" by (simp add: inject_def Let_def nav_def)
  from scenario_five_items [OF h w ex_injected]
  show ?thesis using h w ex_injected by (simp add: h(2))
qed

lemma ex_new: "new_Collapsible nav ''#nav'' 50 = Inr bar"
  by (simp add: new_Collapsible_def queryContainer_def getItemsDimensions_def nav_def bar_def)

text \<open>
  C8. When the lookup of the selector finds no element, \<open>queryContainer\<close> throws the
  error of line 27 and the constructor ends with this same error, so that no instance
  (no items, no widths, no threshold) exists. When the lookup finds an element,
  \<open>queryContainer\<close> returns it and the constructor returns an instance whose container
  is this element, with the given threshold, the list items of the container and one
  measured width per item.
\<close>

theorem construction_fails_iff_no_container:
  "(document_querySelector p selector = None \<longrightarrow>
      queryContainer p selector =
        Inl (Error (''Collapsible: No element find using '' @ [CHR 0x22] @ selector
                    @ [CHR 0x22] @ '' selector'')) \<and>
      new_Collapsible p selector thr = Inl (Error
        (''Collapsible: No element find using '' @ [CHR 0x22] @ selector
                    @ [CHR 0x22] @ '' selector''))) \<and>
   (\<forall>e. document_querySelector p selector = Some e \<longrightarrow>
      queryContainer p selector = Inr e \<and>
      new_Collapsible p selector thr =
        Inr \<lparr>container = e, threshold = thr, items = listItems p e,
             itemsDimensions = map (boundingWidth p) (listItems p e)\<rparr>)"
  by (simp add: new_Collapsible_def queryContainer_def getItemsDimensions_def Let_def)

theorem construction_fails_iff_no_container_witness:
  "document_querySelector nav ''#menu'' = None \<and>
   new_Collapsible nav ''#menu'' 50 =
     Inl (Error (''Collapsible: No element find using '' @ [CHR 0x22] @ ''#menu''
                 @ [CHR 0x22] @ '' selector'')) \<and>
   document_querySelector nav ''#nav'' = Some 1 \<and>
   queryContainer nav ''#nav'' = Inr 1 \<and>
   new_Collapsible nav ''#nav'' 50 = Inr bar"
proof -
  have n: "document_querySelector nav ''#menu'' = None"
    and s: "document_querySelector nav ''#nav'' = Some 1"
    by (simp_all add: nav_def)
  from construction_fails_iff_no_container [of nav "''#menu''" 50] n
  have "new_Collapsible nav ''#menu'' 50 =
     Inl (Error (''Collapsible: No element find using '' @ [CHR 0x22] @ ''#menu''
                 @ [CHR 0x22] @ '' selector''))"
    by simp
  moreover from construction_fails_iff_no_container [of nav "''#nav''" 50] s
  have "queryContainer nav ''#nav'' = Inr 1" by blast
  ultimately show ?thesis using n s ex_new by simp
qed

section \<open>Rendering\<close>


lemma inject_frame [simp]:
  "parentElement (inject c p) = parentElement p"
  "sensors (inject c p) = sensors p"
  "offsetWidth (inject c p) = offsetWidth p"
  by (simp_all add: inject_def Let_def)













end
